theory Spec2Isabelle
  imports
    Main
    "HOL-Library.Char_ord"
    "HOL-Library.List_Lexorder"
    "HOL-Library.Product_Lexorder"
begin

section \<open>Counting unique contributors: the embedding of contributors.py\<close>

subsection \<open>Exceptions\<close>

text \<open>
  The exception classes the script can meet. \<open>GithubException\<close> carries its message and is
  the one class the two \<^verbatim>\<open>except\<close> clauses name; \<open>OverflowError\<close> is what the datetime
  arithmetic raises out of range; \<open>OtherException\<close> stands for every class that is not a
  \<open>GithubException\<close> (an \<^verbatim>\<open>AttributeError\<close> on a missing author name, a transport error).
\<close>

datatype error = GithubException string | OverflowError | OtherException string

fun is_GithubException :: "error \<Rightarrow> bool" where
  "is_GithubException (GithubException _) = True"
| "is_GithubException _ = False"

subsection \<open>Strings\<close>

text \<open>
  A \<^verbatim>\<open>str\<close> is the list of its UTF-8 bytes: equality, the order \<^verbatim>\<open>sorted\<close> uses (by code
  point) and the search for a comma are the same on the bytes as on the code points.
  What \<^verbatim>\<open>str.lower()\<close> computes is Python's Unicode case mapping, which is not part of
  the script: the functions below take it as their first argument \<open>lower\<close>, and every
  property is proved for every such function.
\<close>

text \<open>
  \<^verbatim>\<open>s.split(sep)\<close> for a one-character separator: the pieces between the separators, empty
  pieces kept, so the result is never the empty list.
\<close>

fun split :: "char \<Rightarrow> string \<Rightarrow> string list" where
  "split sep [] = [[]]"
| "split sep (c # s) =
     (if c = sep then [] # split sep s
      else (case split sep s of
              [] \<Rightarrow> [[c]]
            | w # ws \<Rightarrow> (c # w) # ws))"

subsection \<open>Dictionaries\<close>

text \<open>
  A Python \<^verbatim>\<open>dict\<close> keeps its keys unique and in insertion order, and the order is what
  \<^verbatim>\<open>json.dumps\<close> prints: a dictionary is the list of its items.
\<close>

type_synonym ('k, 'v) dict = "('k \<times> 'v) list"

text \<open>\<^verbatim>\<open>d[k] = v\<close>: overwrite in place when the key is there, append otherwise.\<close>

fun dict_setitem :: "('k, 'v) dict \<Rightarrow> 'k \<Rightarrow> 'v \<Rightarrow> ('k, 'v) dict" where
  "dict_setitem [] k v = [(k, v)]"
| "dict_setitem ((k', v') # d) k v =
     (if k' = k then (k, v) # d else (k', v') # dict_setitem d k v)"

text \<open>\<^verbatim>\<open>d.update(other)\<close>: one assignment per item of \<open>other\<close>, in its order.\<close>

definition dict_update :: "('k, 'v) dict \<Rightarrow> ('k, 'v) dict \<Rightarrow> ('k, 'v) dict" where
  "dict_update d other = foldl (\<lambda>acc (k, v). dict_setitem acc k v) d other"

text \<open>\<^verbatim>\<open>dict(pairs)\<close>: the dictionary built from a sequence of pairs.\<close>

definition dict_of :: "('k \<times> 'v) list \<Rightarrow> ('k, 'v) dict" where
  "dict_of pairs = dict_update [] pairs"

subsection \<open>The logger\<close>

datatype level = DEBUG | INFO | WARNING | ERROR

fun levelno :: "level \<Rightarrow> nat" where
  "levelno DEBUG = 10"
| "levelno INFO = 20"
| "levelno WARNING = 30"
| "levelno ERROR = 40"

text \<open>The messages of the script, one constructor per format string, with its arguments.\<close>

datatype message =
    Analyzing_commits string
  | Found_total_commits nat
  | Skipping_empty_repository
  | Found_author string string
  | Duplicate_found string string
  | No_repositories_provided
  | Could_not_find_repository string string
  | Exception_text error

text \<open>
  The module-level logger: its threshold (set by \<^verbatim>\<open>logzero.loglevel\<close>) and the records it
  has handled so far. A call below the threshold leaves it unchanged.
\<close>

record logger =
  loglevel :: level
  handled :: "(level \<times> message) list"

definition emit :: "level \<Rightarrow> message \<Rightarrow> logger \<Rightarrow> logger" where
  "emit l m lg =
     (if levelno (loglevel lg) \<le> levelno l then lg\<lparr>handled := handled lg @ [(l, m)]\<rparr> else lg)"

subsection \<open>The time window\<close>

text \<open>
  A naive \<^verbatim>\<open>datetime\<close> is its number of microseconds since \<^verbatim>\<open>datetime.min\<close>
  (0001-01-01T00:00:00); \<^verbatim>\<open>datetime.max\<close> is 9999-12-31T23:59:59.999999. A
  \<^verbatim>\<open>timedelta\<close> is a number of microseconds.
\<close>

type_synonym datetime = int

definition datetime_max :: datetime where
  "datetime_max = 315537897599999999"

definition us_per_day :: int where
  "us_per_day = 86400000000"

text \<open>\<^verbatim>\<open>timedelta(days=days)\<close>: more than 999999999 days either way is an OverflowError.\<close>

definition timedelta_days :: "int \<Rightarrow> error + int" where
  "timedelta_days days =
     (if \<bar>days\<bar> > 999999999 then Inl OverflowError else Inr (days * us_per_day))"

text \<open>\<^verbatim>\<open>datetime - timedelta\<close>: a result outside min..max is an OverflowError.\<close>

definition datetime_sub :: "datetime \<Rightarrow> int \<Rightarrow> error + datetime" where
  "datetime_sub d delta =
     (let r = d - delta in if r < 0 \<or> datetime_max < r then Inl OverflowError else Inr r)"

text \<open>
  \<^verbatim>\<open>datetime.fromisoformat(d.isoformat())\<close> gives back an equal naive datetime, microseconds
  included.
\<close>

definition isoformat_roundtrip :: "datetime \<Rightarrow> datetime" where
  "isoformat_roundtrip d = d"

text \<open>
  \<^verbatim>\<open>since_datetime\<close>; \<open>today\<close> is the reading of the wall clock that
  \<^verbatim>\<open>datetime.today()\<close> takes inside the call.
\<close>

definition since_datetime :: "datetime \<Rightarrow> int \<Rightarrow> error + datetime" where
  "since_datetime today days =
     (case timedelta_days days of
        Inl e \<Rightarrow> Inl e
      | Inr delta \<Rightarrow>
          (case datetime_sub today delta of
             Inl e \<Rightarrow> Inl e
           | Inr past_date \<Rightarrow> Inr (isoformat_roundtrip past_date)))"

definition DAYS_AGO :: int where
  "DAYS_AGO = 90"

subsection \<open>The repository handle\<close>

text \<open>\<^verbatim>\<open>commit.commit.author\<close>: a name and an email.\<close>

record commit =
  name :: string
  email :: string

text \<open>
  The paginated list \<^verbatim>\<open>get_commits\<close> returns: what reading \<^verbatim>\<open>totalCount\<close> does (a count or
  an exception), and what the iteration meets, in order: for each commit either its
  author or the exception raised while it is fetched and its author read.
\<close>

record paginated_list =
  totalCount :: "error + nat"
  elements :: "(error + commit) list"

record repository =
  full_name :: string
  get_commits :: "datetime \<Rightarrow> paginated_list"

subsection \<open>The contributor collector\<close>

text \<open>
  The \<^verbatim>\<open>for commit in commits\<close> loop of \<^verbatim>\<open>find_recent_contributors\<close>, on the rest of the
  listing, the \<open>authors\<close> built so far and the logger. An exception ends it.
\<close>

fun for_commits ::
  "(string \<Rightarrow> string) \<Rightarrow> (error + commit) list \<Rightarrow> (string, string) dict \<Rightarrow> logger
     \<Rightarrow> logger \<times> (error + (string, string) dict)" where
  "for_commits lower [] authors lg = (lg, Inr authors)"
| "for_commits lower (Inl e # rest) authors lg = (lg, Inl e)"
| "for_commits lower (Inr c # rest) authors lg =
     (let author_name = lower (name c);
          author_email = email c;
          lg1 = emit DEBUG (Found_author author_name author_email) lg
      in if (author_email, author_name) \<notin> set authors
         then for_commits lower rest (dict_setitem authors author_email author_name) lg1
         else for_commits lower rest authors
                (emit WARNING (Duplicate_found author_name author_email) lg1))"

definition find_recent_contributors ::
  "(string \<Rightarrow> string) \<Rightarrow> repository \<Rightarrow> datetime \<Rightarrow> logger
     \<Rightarrow> logger \<times> (error + (string, string) dict)" where
  "find_recent_contributors lower repo since lg =
     (let lg1 = emit INFO (Analyzing_commits (full_name repo)) lg;
          authors = [];
          commits = get_commits repo since
      in case totalCount commits of
           Inl e \<Rightarrow>
             if is_GithubException e
             then (emit WARNING Skipping_empty_repository lg1, Inr authors)
             else (lg1, Inl e)
         | Inr n \<Rightarrow>
             for_commits lower (elements commits) authors
               (emit DEBUG (Found_total_commits n) lg1))"

subsection \<open>The orchestrator\<close>

text \<open>The object that \<^verbatim>\<open>json.dumps\<close> prints, with its three keys.\<close>

record report =
  repositories :: "(string, nat) dict"
  contributors :: "(string, string) dict"
  num_unique_contributors :: nat

text \<open>
  How \<^verbatim>\<open>main\<close> ends: it returns, \<^verbatim>\<open>sys.exit\<close> raises \<^verbatim>\<open>SystemExit\<close> with the code it was
  given, or an exception leaves it uncaught.
\<close>

datatype outcome = Returned | SystemExit "int option" | Raised error

text \<open>
  The exit status of the interpreter: \<^verbatim>\<open>sys.exit()\<close> with no argument is status 0, an
  uncaught exception is status 1.
\<close>

fun exit_status :: "outcome \<Rightarrow> int" where
  "exit_status Returned = 0"
| "exit_status (SystemExit None) = 0"
| "exit_status (SystemExit (Some n)) = n"
| "exit_status (Raised e) = 1"

record run =
  log :: "(level \<times> message) list"
  stdout :: "report option"
  outcome :: outcome

text \<open>
  The \<^verbatim>\<open>for repo in repos.split(",")\<close> loop, on the remaining names and the two
  dictionaries \<open>repo_stats["repositories"]\<close> and \<open>all_contributors\<close>. Every round calls
  \<^verbatim>\<open>github.get_repo\<close> anew, and the remote side may answer the same name differently
  from one call to the next: \<open>github k\<close> is the answer to the call number \<open>k\<close> of the run
  (counted from 0), and \<open>k\<close> is the number of the next call.
\<close>

fun for_repos ::
  "(string \<Rightarrow> string) \<Rightarrow> (nat \<Rightarrow> string \<Rightarrow> error + repository) \<Rightarrow> string \<Rightarrow> datetime
     \<Rightarrow> nat \<Rightarrow> string list \<Rightarrow> (string, nat) dict \<times> (string, string) dict \<Rightarrow> logger
     \<Rightarrow> logger \<times> (error + (string, nat) dict \<times> (string, string) dict)" where
  "for_repos lower github org past_date k [] st lg = (lg, Inr st)"
| "for_repos lower github org past_date k (repo # rest) st lg =
     (case github k (org @ ''/'' @ repo) of
        Inl e \<Rightarrow>
          if is_GithubException e
          then for_repos lower github org past_date (Suc k) rest st
                 (emit ERROR (Exception_text e)
                    (emit ERROR (Could_not_find_repository org repo) lg))
          else (lg, Inl e)
      | Inr github_repository \<Rightarrow>
          (case find_recent_contributors lower github_repository past_date lg of
             (lg1, Inl e) \<Rightarrow> (lg1, Inl e)
           | (lg1, Inr contribs) \<Rightarrow>
               for_repos lower github org past_date (Suc k) rest
                 (dict_setitem (fst st) repo (length contribs), dict_update (snd st) contribs)
                 lg1))"

definition main ::
  "(string \<Rightarrow> string) \<Rightarrow> (nat \<Rightarrow> string \<Rightarrow> error + repository) \<Rightarrow> datetime \<Rightarrow> string
     \<Rightarrow> string option \<Rightarrow> bool \<Rightarrow> run" where
  "main lower github today org repos debug =
     (let lg = \<lparr>loglevel = (if debug then DEBUG else ERROR), handled = []\<rparr>
      in case since_datetime today DAYS_AGO of
           Inl e \<Rightarrow> \<lparr>log = handled lg, stdout = None, outcome = Raised e\<rparr>
         | Inr past_date \<Rightarrow>
             (case repos of
                None \<Rightarrow>
                  \<lparr>log = handled (emit ERROR No_repositories_provided lg), stdout = None,
                   outcome = SystemExit None\<rparr>
              | Some names \<Rightarrow>
                  (case for_repos lower github org past_date 0 (split CHR '','' names) ([], []) lg of
                     (lg1, Inl e) \<Rightarrow> \<lparr>log = handled lg1, stdout = None, outcome = Raised e\<rparr>
                   | (lg1, Inr (repos_count, all_contributors)) \<Rightarrow>
                       if repos_count \<noteq> []
                       then let sorted_contributors = dict_of (sort all_contributors)
                            in \<lparr>log = handled lg1,
                                stdout = Some \<lparr>repositories = repos_count,
                                               contributors = sorted_contributors,
                                               num_unique_contributors = length sorted_contributors\<rparr>,
                                outcome = Returned\<rparr>
                       else \<lparr>log = handled lg1, stdout = None, outcome = Returned\<rparr>)))"

subsection \<open>Notions the properties are stated with\<close>

text \<open>
  The fold that assigns \<open>mapping[author_email] = author_name.lower()\<close> for each commit in
  order, with no check at all.
\<close>

definition naive_fold :: "(string \<Rightarrow> string) \<Rightarrow> commit list \<Rightarrow> (string, string) dict" where
  "naive_fold lower cs =
     foldl (\<lambda>mapping c. dict_setitem mapping (email c) (lower (name c))) [] cs"

text \<open>
  The rounds of the loop over the repository names, from call number \<open>k\<close> on: each name
  of the list with the answer its own lookup gets.
\<close>

fun rounds ::
  "(nat \<Rightarrow> string \<Rightarrow> error + repository) \<Rightarrow> string \<Rightarrow> nat \<Rightarrow> string list
     \<Rightarrow> (string \<times> (error + repository)) list" where
  "rounds github org k [] = []"
| "rounds github org k (repo # rest) =
     (repo, github k (org @ ''/'' @ repo)) # rounds github org (Suc k) rest"

text \<open>
  What a round does with the answer of its lookup, the log left aside: it raises
  (\<open>Inl\<close>), skips the name after a failed lookup (\<open>Inr None\<close>), or gets the repository's
  own mapping from the collector (\<open>Inr (Some m)\<close>).
\<close>

definition collected ::
  "(string \<Rightarrow> string) \<Rightarrow> datetime \<Rightarrow> error + repository
     \<Rightarrow> error + (string, string) dict option" where
  "collected lower past_date answer =
     (case answer of
        Inl e \<Rightarrow> if is_GithubException e then Inr None else Inl e
      | Inr h \<Rightarrow>
          (case snd (find_recent_contributors lower h past_date
                       \<lparr>loglevel = ERROR, handled = []\<rparr>) of
             Inl e \<Rightarrow> Inl e
           | Inr m \<Rightarrow> Inr (Some m)))"

text \<open>
  The processed repositories of a list of rounds, in order, each with its own mapping; a
  name that is processed twice is there twice.
\<close>

definition mappings ::
  "(string \<Rightarrow> string) \<Rightarrow> datetime \<Rightarrow> (string \<times> (error + repository)) list
     \<Rightarrow> (string \<times> (string, string) dict) list" where
  "mappings lower past_date rs =
     List.map_filter
       (\<lambda>ra. case collected lower past_date (snd ra) of
               Inr (Some m) \<Rightarrow> Some (fst ra, m)
             | _ \<Rightarrow> None)
       rs"

text \<open>
  The loop over the rounds with the log left aside; the two dictionaries are updated as
  the loop body updates them.
\<close>

fun aggregate ::
  "(string \<Rightarrow> string) \<Rightarrow> datetime \<Rightarrow> (string \<times> (error + repository)) list
     \<Rightarrow> (string, nat) dict \<times> (string, string) dict
     \<Rightarrow> error + (string, nat) dict \<times> (string, string) dict" where
  "aggregate lower past_date [] st = Inr st"
| "aggregate lower past_date (ra # rest) st =
     (case collected lower past_date (snd ra) of
        Inl e \<Rightarrow> Inl e
      | Inr None \<Rightarrow> aggregate lower past_date rest st
      | Inr (Some m) \<Rightarrow>
          aggregate lower past_date rest
            (dict_setitem (fst st) (fst ra) (length m), dict_update (snd st) m))"

subsection \<open>Sample data\<close>

text \<open>
  \<^verbatim>\<open>str.lower()\<close> on ASCII text, where it turns each of \<open>A\<close>..\<open>Z\<close> into its small letter
  and leaves every other character: the case mapping the samples, all ASCII, are run with.
\<close>

definition ascii_lower_char :: "char \<Rightarrow> char" where
  "ascii_lower_char c =
     (case map_of (zip ''ABCDEFGHIJKLMNOPQRSTUVWXYZ'' ''abcdefghijklmnopqrstuvwxyz'') c of
        None \<Rightarrow> c
      | Some l \<Rightarrow> l)"

definition ascii_lower :: "string \<Rightarrow> string" where
  "ascii_lower s = map ascii_lower_char s"

text \<open>A listing whose count can be read and whose commits all give their author.\<close>

definition listing :: "commit list \<Rightarrow> paginated_list" where
  "listing cs = \<lparr>totalCount = Inr (length cs), elements = map Inr cs\<rparr>"

definition repo_of :: "string \<Rightarrow> paginated_list \<Rightarrow> repository" where
  "repo_of n l = \<lparr>full_name = n, get_commits = (\<lambda>since. l)\<rparr>"

definition bob_then_alice :: "commit list" where
  "bob_then_alice =
     [\<lparr>name = ''Bob'', email = ''a@x.com''\<rparr>, \<lparr>name = ''Alice'', email = ''a@x.com''\<rparr>]"

definition empty_listing :: paginated_list where
  "empty_listing =
     \<lparr>totalCount = Inl (GithubException ''Git Repository is empty.''), elements = []\<rparr>"

definition broken_listing :: paginated_list where
  "broken_listing =
     \<lparr>totalCount = Inr 2,
      elements = [Inr \<lparr>name = ''Bob'', email = ''a@x.com''\<rparr>,
                  Inl (OtherException ''AttributeError'')]\<rparr>"

definition offline_listing :: paginated_list where
  "offline_listing = \<lparr>totalCount = Inl (OtherException ''ConnectionError''), elements = []\<rparr>"

text \<open>
  An organisation \<open>acme\<close> with four repositories, which answers every call alike: \<open>r1\<close>
  and \<open>r2\<close> are the two of the aggregation example, \<open>empty\<close> has no commits, \<open>broken\<close>
  has a commit whose author cannot be read; every other name is not found.
\<close>

definition acme :: "nat \<Rightarrow> string \<Rightarrow> error + repository" where
  "acme k n =
     (if n = ''acme/r1'' then Inr (repo_of n (listing [\<lparr>name = ''Bob'', email = ''a@x.com''\<rparr>]))
      else if n = ''acme/r2''
        then Inr (repo_of n (listing [\<lparr>name = ''Bob'', email = ''a@x.com''\<rparr>,
                                      \<lparr>name = ''Carol'', email = ''c@y.com''\<rparr>]))
      else if n = ''acme/empty'' then Inr (repo_of n empty_listing)
      else if n = ''acme/broken'' then Inr (repo_of n broken_listing)
      else Inl (GithubException ''Not Found''))"


text \<open>2026-11-04T12:00:00, in microseconds since 0001-01-01T00:00:00.\<close>

definition noon :: datetime where
  "noon = 63929390400000000"

definition fresh_logger :: logger where
  "fresh_logger = \<lparr>loglevel = DEBUG, handled = []\<rparr>"

section \<open>Properties\<close>

subsection \<open>Dictionaries\<close>

lemma map_of_dict_setitem: "map_of (dict_setitem d k v) = (map_of d)(k \<mapsto> v)"
  by (induction d) auto

lemma keys_dict_setitem: "set (map fst (dict_setitem d k v)) = insert k (set (map fst d))"
proof (induction d)
  case Nil
  then show ?case by simp
next
  case (Cons p d)
  then show ?case by (cases p) (simp add: insert_commute)
qed

lemma distinct_dict_setitem:
  "distinct (map fst d) \<Longrightarrow> distinct (map fst (dict_setitem d k v))"
proof (induction d)
  case Nil
  then show ?case by simp
next
  case (Cons p d)
  obtain k' v' where p: "p = (k', v')" by (cases p)
  from Cons have d: "distinct (map fst (dict_setitem d k v))" and k': "k' \<notin> set (map fst d)"
    by (simp_all add: p)
  show ?case
  proof (cases "k' = k")
    case True
    with Cons.prems show ?thesis by (simp add: p)
  next
    case False
    with d k' show ?thesis by (simp add: p keys_dict_setitem del: set_map)
  qed
qed

lemma dict_setitem_present:
  "distinct (map fst d) \<Longrightarrow> (k, v) \<in> set d \<Longrightarrow> dict_setitem d k v = d"
proof (induction d)
  case Nil
  then show ?case by simp
next
  case (Cons p d)
  obtain k' v' where p: "p = (k', v')" by (cases p)
  show ?case
  proof (cases "k' = k")
    case True
    with Cons.prems have "(k, v) \<notin> set d"
      by (metis distinct.simps(2) fst_conv image_eqI list.simps(9) p set_map)
    with Cons.prems True show ?thesis by (simp add: p)
  next
    case False
    with Cons show ?thesis by (simp add: p)
  qed
qed

lemma dict_setitem_absent:
  "k \<notin> set (map fst d) \<Longrightarrow> dict_setitem d k v = d @ [(k, v)]"
proof (induction d)
  case Nil
  then show ?case by simp
next
  case (Cons p d)
  then show ?case by (cases p) auto
qed

subsection \<open>The collector's loop\<close>

lemma for_commits_all_read:
  "snd (for_commits lower (map Inr cs) authors lg) =
     Inr (foldl (\<lambda>a c. if (email c, lower (name c)) \<in> set a then a
                        else dict_setitem a (email c) (lower (name c))) authors cs)"
  by (induction cs arbitrary: authors lg) (simp_all add: Let_def)

lemma find_recent_contributors_all_read:
  assumes "totalCount (get_commits repo since) = Inr n"
    and "elements (get_commits repo since) = map Inr cs"
  shows "snd (find_recent_contributors lower repo since lg) =
     Inr (foldl (\<lambda>a c. if (email c, lower (name c)) \<in> set a then a
                        else dict_setitem a (email c) (lower (name c))) [] cs)"
  using assms by (simp add: find_recent_contributors_def Let_def for_commits_all_read)

lemma checked_fold_eq_naive:
  "distinct (map fst a) \<Longrightarrow>
   foldl (\<lambda>a c. if (email c, lower (name c)) \<in> set a then a
                 else dict_setitem a (email c) (lower (name c))) a cs =
   foldl (\<lambda>mapping c. dict_setitem mapping (email c) (lower (name c))) a cs"
proof (induction cs arbitrary: a)
  case Nil
  then show ?case by simp
next
  case (Cons c cs)
  show ?case
  proof (cases "(email c, lower (name c)) \<in> set a")
    case True
    with Cons.prems have "dict_setitem a (email c) (lower (name c)) = a"
      by (rule dict_setitem_present)
    with True Cons show ?thesis by simp
  next
    case False
    with Cons show ?thesis by (simp add: distinct_dict_setitem)
  qed
qed

lemma map_of_naive_last:
  "e \<in> email ` set cs \<Longrightarrow>
   map_of (foldl (\<lambda>mapping c. dict_setitem mapping (email c) (lower (name c))) a cs) e =
     Some (lower (name (last (filter (\<lambda>c. email c = e) cs))))"
proof (induction cs rule: rev_induct)
  case Nil
  then show ?case by simp
next
  case (snoc c cs)
  show ?case
  proof (cases "email c = e")
    case True
    then show ?thesis by (simp add: map_of_dict_setitem)
  next
    case False
    with snoc.prems have "e \<in> email ` set cs" by auto
    with snoc.IH False show ?thesis by (simp add: map_of_dict_setitem)
  qed
qed

lemma map_of_checked_fold:
  "distinct (map fst a) \<Longrightarrow>
   map_of (foldl (\<lambda>a c. if (email c, lower (name c)) \<in> set a then a
                        else dict_setitem a (email c) (lower (name c))) a cs) =
   foldl (\<lambda>m c. if m (email c) = Some (lower (name c)) then m
                 else m(email c \<mapsto> lower (name c))) (map_of a) cs"
proof (induction cs arbitrary: a)
  case Nil
  then show ?case by simp
next
  case (Cons c cs)
  let ?F = "\<lambda>a c. if (email c, lower (name c)) \<in> set a then a
                  else dict_setitem a (email c) (lower (name c))"
  let ?G = "\<lambda>m c. if m (email c) = Some (lower (name c)) then m
                  else m(email c \<mapsto> lower (name c))"
  show ?case
  proof (cases "(email c, lower (name c)) \<in> set a")
    case True
    with Cons.prems have "map_of a (email c) = Some (lower (name c))" by simp
    with True Cons.IH [OF Cons.prems] show ?thesis by simp
  next
    case False
    with Cons.prems have neq: "map_of a (email c) \<noteq> Some (lower (name c))" by simp
    have "distinct (map fst (dict_setitem a (email c) (lower (name c))))"
      using Cons.prems by (rule distinct_dict_setitem)
    from Cons.IH [OF this]
    have IH: "map_of (foldl ?F (dict_setitem a (email c) (lower (name c))) cs) =
                foldl ?G ((map_of a)(email c \<mapsto> lower (name c))) cs"
      by (simp only: map_of_dict_setitem)
    have l: "foldl ?F a (c # cs) = foldl ?F (dict_setitem a (email c) (lower (name c))) cs"
      using False by simp
    have r: "foldl ?G (map_of a) (c # cs) =
               foldl ?G ((map_of a)(email c \<mapsto> lower (name c))) cs"
      using neq by simp
    show ?thesis by (simp only: l r IH)
  qed
qed

lemma listing_sel:
  "totalCount (get_commits (repo_of n (listing cs)) since) = Inr (length cs)"
  "elements (get_commits (repo_of n (listing cs)) since) = map Inr cs"
  by (simp_all add: repo_of_def listing_def)

subsection \<open>More on dictionaries\<close>

lemma dict_update_Nil [simp]: "dict_update d [] = d"
  by (simp add: dict_update_def)

lemma dict_update_Cons [simp]:
  "dict_update d ((k, v) # other) = dict_update (dict_setitem d k v) other"
  by (simp add: dict_update_def)

lemma distinct_dict_update:
  "distinct (map fst d) \<Longrightarrow> distinct (map fst (dict_update d other))"
proof (induction other arbitrary: d)
  case Nil
  then show ?case by simp
next
  case (Cons p other)
  then show ?case by (cases p) (simp add: distinct_dict_setitem)
qed

lemma keys_dict_update:
  "set (map fst (dict_update d other)) = set (map fst d) \<union> set (map fst other)"
proof (induction other arbitrary: d)
  case Nil
  then show ?case by simp
next
  case (Cons p other)
  obtain k v where p: "p = (k, v)" by (cases p)
  have "set (map fst (dict_update (dict_setitem d k v) other)) =
      set (map fst (dict_setitem d k v)) \<union> set (map fst other)"
    by (rule Cons.IH)
  then show ?case by (simp add: p keys_dict_setitem del: set_map)
qed

lemma map_of_dict_update:
  "distinct (map fst other) \<Longrightarrow> map_of (dict_update d other) = map_of d ++ map_of other"
proof (induction other arbitrary: d)
  case Nil
  then show ?case by simp
next
  case (Cons p other)
  obtain k v where p: "p = (k, v)" by (cases p)
  from Cons.prems have k: "k \<notin> dom (map_of other)" and d: "distinct (map fst other)"
    by (simp_all add: p dom_map_of_conv_image_fst)
  have "map_of (dict_update (dict_setitem d k v) other) = (map_of d)(k \<mapsto> v) ++ map_of other"
    using Cons.IH [OF d, of "dict_setitem d k v"] by (simp only: map_of_dict_setitem)
  also have "\<dots> = map_of d ++ (map_of other)(k \<mapsto> v)"
  proof
    fix x
    show "((map_of d)(k \<mapsto> v) ++ map_of other) x = (map_of d ++ (map_of other)(k \<mapsto> v)) x"
      using k by (cases "x = k") (auto simp: map_add_def split: option.splits)
  qed
  finally show ?case
    by (simp only: p dict_update_Cons map_of.simps fst_conv snd_conv)
qed

lemma dict_update_fresh:
  "distinct (map fst (d @ other)) \<Longrightarrow> dict_update d other = d @ other"
proof (induction other arbitrary: d)
  case Nil
  then show ?case by simp
next
  case (Cons p other)
  obtain k v where p: "p = (k, v)" by (cases p)
  from Cons.prems have "k \<notin> set (map fst d)" by (auto simp: p)
  then have s: "dict_setitem d k v = d @ [(k, v)]" by (rule dict_setitem_absent)
  from Cons.prems have "distinct (map fst ((d @ [(k, v)]) @ other))" by (simp add: p)
  from Cons.IH [OF this] s show ?case by (simp add: p)
qed

lemma dict_of_distinct: "distinct (map fst pairs) \<Longrightarrow> dict_of pairs = pairs"
  using dict_update_fresh [of "[]" pairs] by (simp add: dict_of_def)

lemma set_dict_update_functional:
  assumes "distinct (map fst d)"
    and "\<And>k v v'. (k, v) \<in> set d \<union> set other \<Longrightarrow> (k, v') \<in> set d \<union> set other \<Longrightarrow> v = v'"
  shows "set (dict_update d other) = set d \<union> set other"
  using assms
proof (induction other arbitrary: d)
  case Nil
  then show ?case by simp
next
  case (Cons p other)
  obtain k v where p: "p = (k, v)" by (cases p)
  have s: "set (dict_setitem d k v) = insert (k, v) (set d)"
  proof (cases "k \<in> set (map fst d)")
    case True
    then obtain v' where "(k, v') \<in> set d" by auto
    with Cons.prems(2) [of k v' v] have "(k, v) \<in> set d" by (simp add: p)
    with Cons.prems(1) have "dict_setitem d k v = d" by (rule dict_setitem_present)
    with \<open>(k, v) \<in> set d\<close> show ?thesis by auto
  next
    case False
    then have "dict_setitem d k v = d @ [(k, v)]" by (rule dict_setitem_absent)
    then show ?thesis by simp
  qed
  have "set (dict_update (dict_setitem d k v) other) = set (dict_setitem d k v) \<union> set other"
  proof (rule Cons.IH)
    show "distinct (map fst (dict_setitem d k v))"
      using Cons.prems(1) by (rule distinct_dict_setitem)
    fix a b b'
    assume "(a, b) \<in> set (dict_setitem d k v) \<union> set other"
      and "(a, b') \<in> set (dict_setitem d k v) \<union> set other"
    then have "(a, b) \<in> set d \<union> set (p # other)" and "(a, b') \<in> set d \<union> set (p # other)"
      by (auto simp: s p)
    then show "b = b'" by (rule Cons.prems(2))
  qed
  then show ?case by (auto simp: s p)
qed

lemma sorted_keys_of_sorted_items:
  fixes xs :: "('a::linorder \<times> 'b::linorder) list"
  assumes "sorted xs"
  shows "sorted (map fst xs)"
proof -
  have "sorted_wrt (\<lambda>x y. fst x \<le> fst y) xs"
    using assms by (rule sorted_wrt_mono_rel [rotated]) (auto simp: less_eq_prod_def)
  then show ?thesis by (simp add: sorted_map)
qed

lemma distinct_keys_sort:
  fixes xs :: "('a::linorder \<times> 'b::linorder) list"
  assumes "distinct (map fst xs)"
  shows "distinct (map fst (sort xs))"
  using assms by (simp add: distinct_map)

lemma map_of_sort:
  fixes xs :: "('a::linorder \<times> 'b::linorder) list"
  assumes "distinct (map fst xs)"
  shows "map_of (sort xs) = map_of xs"
proof
  fix k
  from assms have d: "distinct (map fst (sort xs))" by (rule distinct_keys_sort)
  show "map_of (sort xs) k = map_of xs k"
  proof (cases "map_of xs k")
    case None
    then have "k \<notin> fst ` set xs" by (simp add: map_of_eq_None_iff)
    then have "map_of (sort xs) k = None" by (simp add: map_of_eq_None_iff)
    with None show ?thesis by simp
  next
    case (Some v)
    then have "(k, v) \<in> set (sort xs)" by (auto dest: map_of_SomeD)
    with d have "map_of (sort xs) k = Some v" by (rule map_of_is_SomeI)
    with Some show ?thesis by simp
  qed
qed

subsection \<open>The log does not change the result\<close>

lemma for_commits_log_irrelevant:
  "snd (for_commits lower cs authors lg) = snd (for_commits lower cs authors lg')"
proof (induction cs arbitrary: authors lg lg')
  case Nil
  show ?case by simp
next
  case (Cons x cs)
  show ?case
  proof (cases x)
    case (Inl e)
    then show ?thesis by simp
  next
    case (Inr c)
    show ?thesis
    proof (cases "(email c, lower (name c)) \<in> set authors")
      case True
      with Inr show ?thesis by (simp add: Let_def) (rule Cons.IH)
    next
      case False
      with Inr show ?thesis by (simp add: Let_def) (rule Cons.IH)
    qed
  qed
qed

lemma find_recent_contributors_log_irrelevant:
  "snd (find_recent_contributors lower repo since lg) = snd (find_recent_contributors lower repo since lg')"
proof (cases "totalCount (get_commits repo since)")
  case (Inl e)
  then show ?thesis by (simp add: find_recent_contributors_def Let_def)
next
  case (Inr n)
  then show ?thesis
    by (simp add: find_recent_contributors_def Let_def) (rule for_commits_log_irrelevant)
qed

lemma distinct_for_commits:
  "distinct (map fst authors) \<Longrightarrow> snd (for_commits lower cs authors lg) = Inr m \<Longrightarrow>
   distinct (map fst m)"
proof (induction cs arbitrary: authors lg)
  case Nil
  then show ?case by simp
next
  case (Cons x cs)
  show ?case
  proof (cases x)
    case (Inl e)
    with Cons.prems show ?thesis by simp
  next
    case (Inr c)
    show ?thesis
    proof (cases "(email c, lower (name c)) \<in> set authors")
      case True
      with Inr Cons.prems Cons.IH [of authors] show ?thesis by (simp add: Let_def)
    next
      case False
      have "distinct (map fst (dict_setitem authors (email c) (lower (name c))))"
        using Cons.prems(1) by (rule distinct_dict_setitem)
      with False Inr Cons.prems(2) Cons.IH [of "dict_setitem authors (email c) (lower (name c))"]
      show ?thesis by (simp add: Let_def)
    qed
  qed
qed

lemma distinct_find_recent_contributors:
  assumes "snd (find_recent_contributors lower repo since lg) = Inr m"
  shows "distinct (map fst m)"
proof (cases "totalCount (get_commits repo since)")
  case (Inl e)
  with assms show ?thesis
    by (cases "is_GithubException e") (auto simp: find_recent_contributors_def Let_def)
next
  case (Inr n)
  with assms have "snd (for_commits lower (elements (get_commits repo since)) []
      (emit DEBUG (Found_total_commits n) (emit INFO (Analyzing_commits (full_name repo)) lg)))
      = Inr m"
    by (simp add: find_recent_contributors_def Let_def)
  then show ?thesis by (rule distinct_for_commits [rotated]) simp
qed

lemma for_repos_aggregate:
  "snd (for_repos lower github org past_date k names st lg) =
     aggregate lower past_date (rounds github org k names) st"
proof (induction names arbitrary: k st lg)
  case Nil
  show ?case by simp
next
  case (Cons repo rest)
  show ?case
  proof (cases "github k (org @ ''/'' @ repo)")
    case (Inl e)
    then show ?thesis
      by (cases "is_GithubException e") (simp_all add: collected_def Cons.IH)
  next
    case (Inr h)
    obtain lg1 r where f: "find_recent_contributors lower h past_date lg = (lg1, r)"
      by (cases "find_recent_contributors lower h past_date lg")
    have "snd (find_recent_contributors lower h past_date \<lparr>loglevel = ERROR, handled = []\<rparr>) =
        snd (find_recent_contributors lower h past_date lg)"
      by (rule find_recent_contributors_log_irrelevant)
    with f have q:
      "snd (find_recent_contributors lower h past_date \<lparr>loglevel = ERROR, handled = []\<rparr>) = r"
      by simp
    show ?thesis
    proof (cases r)
      case (Inl e)
      with Inr f q show ?thesis by (simp add: collected_def)
    next
      case (Inr m)
      with \<open>github k (org @ ''/'' @ repo) = Inr h\<close> f q show ?thesis
        by (simp add: collected_def Cons.IH)
    qed
  qed
qed

lemma collected_distinct:
  assumes "collected lower past_date answer = Inr (Some m)"
  shows "distinct (map fst m)"
proof (cases answer)
  case (Inl e)
  with assms show ?thesis by (simp add: collected_def split: if_splits)
next
  case (Inr h)
  with assms
  have "snd (find_recent_contributors lower h past_date \<lparr>loglevel = ERROR, handled = []\<rparr>) = Inr m"
    by (simp add: collected_def split: sum.splits)
  then show ?thesis by (rule distinct_find_recent_contributors)
qed

lemma collected_lookup:
  "collected lower past_date (Inr h) = Inr r \<Longrightarrow> \<exists>m. r = Some m"
  by (auto simp: collected_def split: sum.splits)

lemma collected_Some_lookup:
  "collected lower past_date answer = Inr (Some m) \<Longrightarrow> \<exists>h. answer = Inr h"
  by (cases answer) (auto simp: collected_def split: if_splits)

lemma collected_listing:
  "collected lower past_date (Inr (repo_of n (listing cs))) =
     Inr (Some (foldl (\<lambda>a c. if (email c, lower (name c)) \<in> set a then a
                        else dict_setitem a (email c) (lower (name c))) [] cs))"
proof -
  have "snd (find_recent_contributors lower (repo_of n (listing cs)) past_date
               \<lparr>loglevel = ERROR, handled = []\<rparr>) =
     Inr (foldl (\<lambda>a c. if (email c, lower (name c)) \<in> set a then a
                        else dict_setitem a (email c) (lower (name c))) [] cs)"
    by (rule find_recent_contributors_all_read) (rule listing_sel)+
  then show ?thesis by (simp add: collected_def)
qed

lemma rounds_append:
  "rounds github org k (pre @ post) =
     rounds github org k pre @ rounds github org (k + length pre) post"
  by (induction pre arbitrary: k) simp_all

lemma main_stdout:
  assumes "since_datetime today DAYS_AGO = Inr past_date"
  shows "stdout (main lower github today org (Some names) debug) =
     (case aggregate lower past_date (rounds github org 0 (split CHR '','' names)) ([], []) of
        Inl e \<Rightarrow> None
      | Inr st \<Rightarrow>
          if fst st \<noteq> []
          then Some \<lparr>repositories = fst st, contributors = dict_of (sort (snd st)),
                     num_unique_contributors = length (dict_of (sort (snd st)))\<rparr>
          else None)"
proof -
  let ?lg = "\<lparr>loglevel = (if debug then DEBUG else ERROR), handled = []\<rparr>"
  obtain lg1 r where f:
    "for_repos lower github org past_date 0 (split CHR '','' names) ([], []) ?lg = (lg1, r)"
    by (cases "for_repos lower github org past_date 0 (split CHR '','' names) ([], []) ?lg")
  then have "snd (for_repos lower github org past_date 0 (split CHR '','' names) ([], []) ?lg) = r"
    by simp
  then have r:
    "aggregate lower past_date (rounds github org 0 (split CHR '','' names)) ([], []) = r"
    by (simp only: for_repos_aggregate)
  show ?thesis
  proof (cases r)
    case (Inl e)
    with f r assms show ?thesis by (simp add: main_def Let_def)
  next
    case (Inr st)
    with f r assms show ?thesis by (cases st) (simp add: main_def Let_def)
  qed
qed

lemma main_outcome:
  assumes "since_datetime today DAYS_AGO = Inr past_date"
  shows "outcome (main lower github today org (Some names) debug) =
     (case aggregate lower past_date (rounds github org 0 (split CHR '','' names)) ([], []) of
        Inl e \<Rightarrow> Raised e
      | Inr st \<Rightarrow> Returned)"
proof -
  let ?lg = "\<lparr>loglevel = (if debug then DEBUG else ERROR), handled = []\<rparr>"
  obtain lg1 r where f:
    "for_repos lower github org past_date 0 (split CHR '','' names) ([], []) ?lg = (lg1, r)"
    by (cases "for_repos lower github org past_date 0 (split CHR '','' names) ([], []) ?lg")
  then have "snd (for_repos lower github org past_date 0 (split CHR '','' names) ([], []) ?lg) = r"
    by simp
  then have r:
    "aggregate lower past_date (rounds github org 0 (split CHR '','' names)) ([], []) = r"
    by (simp only: for_repos_aggregate)
  show ?thesis
  proof (cases r)
    case (Inl e)
    with f r assms show ?thesis by (simp add: main_def Let_def)
  next
    case (Inr st)
    with f r assms show ?thesis by (cases st) (simp add: main_def Let_def)
  qed
qed

lemma main_no_clock:
  "since_datetime today DAYS_AGO = Inl e \<Longrightarrow>
   main lower github today org repos debug = \<lparr>log = [], stdout = None, outcome = Raised e\<rparr>"
  by (simp add: main_def Let_def)

lemma main_None:
  "since_datetime today DAYS_AGO = Inr past_date \<Longrightarrow>
   main lower github today org None debug =
     \<lparr>log = [(ERROR, No_repositories_provided)], stdout = None, outcome = SystemExit None\<rparr>"
  by (simp add: main_def Let_def emit_def)

lemma for_commits_error:
  "snd (for_commits lower (map Inr cs @ Inl e # rest) authors lg) = Inl e"
  by (induction cs arbitrary: authors lg) (simp_all add: Let_def)

subsection \<open>The loop over the repositories\<close>

lemma mappings_Nil [simp]: "mappings lower past_date [] = []"
  by (simp add: mappings_def map_filter_simps)

lemma mappings_Cons:
  "mappings lower past_date (ra # rest) =
     (case collected lower past_date (snd ra) of
        Inr (Some m) \<Rightarrow> (fst ra, m) # mappings lower past_date rest
      | _ \<Rightarrow> mappings lower past_date rest)"
  by (simp add: mappings_def map_filter_simps split: sum.splits option.splits)

lemma in_mappings:
  "(repo, m) \<in> set (mappings lower past_date rs) \<longleftrightarrow>
     (\<exists>answer. (repo, answer) \<in> set rs \<and> collected lower past_date answer = Inr (Some m))"
proof (induction rs)
  case Nil
  show ?case by simp
next
  case (Cons ra rs)
  obtain n a where ra: "ra = (n, a)" by (cases ra)
  show ?case
  proof (cases "collected lower past_date a")
    case (Inl e)
    with Cons show ?thesis by (auto simp: mappings_Cons ra)
  next
    case (Inr x)
    with Cons show ?thesis by (cases x) (auto simp: mappings_Cons ra)
  qed
qed

lemma mappings_distinct:
  assumes "(repo, m) \<in> set (mappings lower past_date rs)"
  shows "distinct (map fst m)"
  using assms by (auto simp: in_mappings intro: collected_distinct)

lemma aggregate_returns:
  assumes "aggregate lower past_date rs st = Inr st'"
  shows "fst st' = dict_update (fst st)
                     (map (\<lambda>(repo, m). (repo, length m)) (mappings lower past_date rs)) \<and>
         snd st' = foldl dict_update (snd st) (map snd (mappings lower past_date rs)) \<and>
         (\<forall>ra\<in>set rs. \<exists>r. collected lower past_date (snd ra) = Inr r)"
  using assms
proof (induction rs arbitrary: st)
  case Nil
  then show ?case by auto
next
  case (Cons ra rest)
  show ?case
  proof (cases "collected lower past_date (snd ra)")
    case (Inl e)
    with Cons.prems show ?thesis by simp
  next
    case (Inr x)
    show ?thesis
    proof (cases x)
      case None
      with Inr Cons.prems have "aggregate lower past_date rest st = Inr st'"
        by simp
      from Cons.IH [OF this] Inr None show ?thesis by (simp add: mappings_Cons)
    next
      case (Some m)
      with Inr Cons.prems have "aggregate lower past_date rest
          (dict_setitem (fst st) (fst ra) (length m), dict_update (snd st) m) = Inr st'"
        by simp
      from Cons.IH [OF this] Inr Some show ?thesis by (simp add: mappings_Cons)
    qed
  qed
qed

lemma aggregate_abort:
  assumes "\<forall>ra\<in>set pre. \<exists>r. collected lower past_date (snd ra) = Inr r"
    and "collected lower past_date (snd ra) = Inl e"
  shows "aggregate lower past_date (pre @ ra # post) st = Inl e"
  using assms
proof (induction pre arbitrary: st)
  case Nil
  then show ?case by simp
next
  case (Cons p pre)
  then obtain r where r: "collected lower past_date (snd p) = Inr r" by auto
  from Cons.prems have rest: "\<forall>ra\<in>set pre. \<exists>r. collected lower past_date (snd ra) = Inr r"
    by simp
  show ?case
  proof (cases r)
    case None
    with r Cons.IH [OF rest Cons.prems(2), of st] show ?thesis by simp
  next
    case (Some m)
    with r Cons.IH [OF rest Cons.prems(2),
        of "(dict_setitem (fst st) (fst p) (length m), dict_update (snd st) m)"]
    show ?thesis by simp
  qed
qed

lemma map_of_foldl_dict_update:
  "\<forall>m\<in>set ms. distinct (map fst m) \<Longrightarrow>
   map_of (foldl dict_update ac ms) = foldl (\<lambda>acc m. acc ++ map_of m) (map_of ac) ms"
proof (induction ms arbitrary: ac)
  case Nil
  show ?case by simp
next
  case (Cons m ms)
  then have "map_of (dict_update ac m) = map_of ac ++ map_of m"
    by (simp add: map_of_dict_update)
  with Cons.IH [of "dict_update ac m"] Cons.prems show ?case by simp
qed

lemma distinct_foldl_dict_update:
  "distinct (map fst ac) \<Longrightarrow> distinct (map fst (foldl dict_update ac ms))"
  by (induction ms arbitrary: ac) (simp_all add: distinct_dict_update)


lemma map_of_dict_update_last:
  "map_of (dict_update d other) = map_of d ++ map_of (rev other)"
proof (induction other arbitrary: d)
  case Nil
  show ?case by simp
next
  case (Cons p other)
  obtain k v where p: "p = (k, v)" by (cases p)
  have "map_of (dict_update (dict_setitem d k v) other) =
      (map_of d)(k \<mapsto> v) ++ map_of (rev other)"
    using Cons.IH [of "dict_setitem d k v"] by (simp only: map_of_dict_setitem)
  also have "\<dots> = map_of d ++ map_of (rev other @ [(k, v)])"
  proof
    fix x
    show "((map_of d)(k \<mapsto> v) ++ map_of (rev other)) x =
        (map_of d ++ map_of (rev other @ [(k, v)])) x"
      by (cases "x = k") (auto simp: map_add_def split: option.splits)
  qed
  finally show ?case
    by (simp only: p dict_update_Cons rev.simps)
qed

lemma main_prints:
  assumes "since_datetime today DAYS_AGO = Inr past_date"
    and "stdout (main lower github today org (Some names) debug) = Some r"
  obtains ac where
    "repositories r = dict_update []
        (map (\<lambda>(repo, m). (repo, length m))
           (mappings lower past_date (rounds github org 0 (split CHR '','' names))))"
    "ac = foldl dict_update []
        (map snd (mappings lower past_date (rounds github org 0 (split CHR '','' names))))"
    "contributors r = sort ac"
    "num_unique_contributors r = length ac"
    "distinct (map fst ac)"
proof -
  let ?ms = "mappings lower past_date (rounds github org 0 (split CHR '','' names))"
  from assms(2) main_stdout [OF assms(1), of lower github org names debug]
  obtain st where st:
    "aggregate lower past_date (rounds github org 0 (split CHR '','' names)) ([], []) = Inr st"
    and r: "r = \<lparr>repositories = fst st, contributors = dict_of (sort (snd st)),
                 num_unique_contributors = length (dict_of (sort (snd st)))\<rparr>"
    by (auto split: sum.splits if_splits)
  from aggregate_returns [OF st]
  have rc: "fst st = dict_update [] (map (\<lambda>(repo, m). (repo, length m)) ?ms)"
    and ac: "snd st = foldl dict_update [] (map snd ?ms)"
    by simp_all
  have d: "distinct (map fst (snd st))"
    unfolding ac by (rule distinct_foldl_dict_update) simp
  then have "distinct (map fst (sort (snd st)))" by (rule distinct_keys_sort)
  then have s: "dict_of (sort (snd st)) = sort (snd st)" by (rule dict_of_distinct)
  show thesis
  proof (rule that [of "snd st"])
    show "repositories r = dict_update [] (map (\<lambda>(repo, m). (repo, length m)) ?ms)"
      by (simp add: r rc)
    show "snd st = foldl dict_update [] (map snd ?ms)" by (rule ac)
    show "contributors r = sort (snd st)" by (simp add: r s)
    show "num_unique_contributors r = length (snd st)" by (simp add: r s)
    show "distinct (map fst (snd st))" by (rule d)
  qed
qed

lemma dict_update_eq_Nil: "dict_update d other = [] \<longleftrightarrow> d = [] \<and> other = []"
proof -
  have "set (map fst (dict_update d other)) = {} \<longleftrightarrow> set (map fst d) = {} \<and> set (map fst other) = {}"
    by (simp only: keys_dict_update Un_empty)
  then show ?thesis by simp
qed

subsection \<open>Counting a union\<close>



lemma noon_window: "since_datetime noon DAYS_AGO = Inr 63921614400000000"
  by (simp add: since_datetime_def timedelta_days_def datetime_sub_def isoformat_roundtrip_def
      us_per_day_def datetime_max_def noon_def DAYS_AGO_def Let_def)

subsection \<open>The collector\<close>

text \<open>
  C1. The collector goes through the commits in order; for each one it takes the lowercased
  author name \<open>n\<close> and the email \<open>e\<close> as it is; when the pair \<open>(e, n)\<close> is not an item of
  the mapping built so far it sets \<open>mapping[e] = n\<close> (a new key or an overwritten value),
  and when the pair is an item it leaves the mapping as it is. Read as a finite map, the
  result is the same fold with \<open>m e = Some n\<close> as the test and \<open>m(e \<mapsto> n)\<close> as the write.
\<close>

theorem collector_processes_commits_in_order:
  assumes "totalCount (get_commits repo since) = Inr n"
    and "elements (get_commits repo since) = map Inr cs"
  shows "snd (find_recent_contributors lower repo since lg) =
           Inr (foldl (\<lambda>mapping c.
                         if (email c, lower (name c)) \<in> set mapping then mapping
                         else dict_setitem mapping (email c) (lower (name c))) [] cs) \<and>
         map_of (foldl (\<lambda>mapping c.
                         if (email c, lower (name c)) \<in> set mapping then mapping
                         else dict_setitem mapping (email c) (lower (name c))) [] cs) =
           foldl (\<lambda>m c. if m (email c) = Some (lower (name c)) then m
                         else m(email c \<mapsto> lower (name c))) Map.empty cs"
proof
  show "snd (find_recent_contributors lower repo since lg) =
           Inr (foldl (\<lambda>mapping c.
                         if (email c, lower (name c)) \<in> set mapping then mapping
                         else dict_setitem mapping (email c) (lower (name c))) [] cs)"
    using assms by (rule find_recent_contributors_all_read)
  show "map_of (foldl (\<lambda>mapping c.
                         if (email c, lower (name c)) \<in> set mapping then mapping
                         else dict_setitem mapping (email c) (lower (name c))) [] cs) =
           foldl (\<lambda>m c. if m (email c) = Some (lower (name c)) then m
                         else m(email c \<mapsto> lower (name c))) Map.empty cs"
    using map_of_checked_fold [of "[]" lower cs] by simp
qed

theorem collector_processes_commits_in_order_witness:
  "totalCount (get_commits (repo_of ''acme/r'' (listing bob_then_alice)) noon) = Inr 2 \<and>
   elements (get_commits (repo_of ''acme/r'' (listing bob_then_alice)) noon) =
     map Inr bob_then_alice \<and>
   snd (find_recent_contributors ascii_lower (repo_of ''acme/r'' (listing bob_then_alice)) noon
          fresh_logger) = Inr [(''a@x.com'', ''alice'')] \<and>
   foldl (\<lambda>m c. if m (email c) = Some (ascii_lower (name c)) then m
                 else m(email c \<mapsto> ascii_lower (name c))) Map.empty bob_then_alice =
     [''a@x.com'' \<mapsto> ''alice'']"
proof -
  have h1: "totalCount (get_commits (repo_of ''acme/r'' (listing bob_then_alice)) noon) = Inr 2"
    by (simp add: listing_sel bob_then_alice_def)
  have h2: "elements (get_commits (repo_of ''acme/r'' (listing bob_then_alice)) noon) =
      map Inr bob_then_alice"
    by (simp add: listing_sel)
  have ev: "foldl (\<lambda>mapping c.
                     if (email c, ascii_lower (name c)) \<in> set mapping then mapping
                     else dict_setitem mapping (email c) (ascii_lower (name c))) [] bob_then_alice
      = [(''a@x.com'', ''alice'')]"
    by (simp add: bob_then_alice_def ascii_lower_def ascii_lower_char_def)
  from collector_processes_commits_in_order [OF h1 h2, of ascii_lower fresh_logger] h1 h2
  show ?thesis by (simp add: ev)
qed

text \<open>
  C2. The mapping the collector returns is the result of the naive fold that assigns
  \<open>mapping[author_email] = author_name.lower()\<close> for every commit in order: the test on the
  pair changes what is logged, never what is returned.
\<close>

theorem duplicate_check_refines_naive_fold:
  assumes "totalCount (get_commits repo since) = Inr n"
    and "elements (get_commits repo since) = map Inr cs"
  shows "snd (find_recent_contributors lower repo since lg) = Inr (naive_fold lower cs)"
proof -
  have "foldl (\<lambda>a c. if (email c, lower (name c)) \<in> set a then a
                 else dict_setitem a (email c) (lower (name c))) [] cs = naive_fold lower cs"
    unfolding naive_fold_def by (rule checked_fold_eq_naive) simp
  with find_recent_contributors_all_read [OF assms, of lower lg] show ?thesis by simp
qed

theorem duplicate_check_refines_naive_fold_witness:
  "totalCount (get_commits (repo_of ''acme/r'' (listing bob_then_alice)) noon) = Inr 2 \<and>
   elements (get_commits (repo_of ''acme/r'' (listing bob_then_alice)) noon) =
     map Inr bob_then_alice \<and>
   snd (find_recent_contributors ascii_lower (repo_of ''acme/r'' (listing bob_then_alice)) noon
          fresh_logger) = Inr (naive_fold ascii_lower bob_then_alice) \<and>
   naive_fold ascii_lower bob_then_alice = [(''a@x.com'', ''alice'')]"
proof -
  have h1: "totalCount (get_commits (repo_of ''acme/r'' (listing bob_then_alice)) noon) = Inr 2"
    by (simp add: listing_sel bob_then_alice_def)
  have h2: "elements (get_commits (repo_of ''acme/r'' (listing bob_then_alice)) noon) =
      map Inr bob_then_alice"
    by (simp add: listing_sel)
  have ev: "naive_fold ascii_lower bob_then_alice = [(''a@x.com'', ''alice'')]"
    by (simp add: naive_fold_def bob_then_alice_def ascii_lower_def ascii_lower_char_def)
  from duplicate_check_refines_naive_fold [OF h1 h2, of ascii_lower fresh_logger] h1 h2 ev
  show ?thesis by simp
qed

text \<open>
  C3. For an email that occurs in the commit list, the name the returned mapping keeps
  under it is the lowercased name of the last commit with that email, so of two different
  names the one seen later wins; for the list \<open>[("a@x.com", "Bob"), ("a@x.com", "Alice")]\<close>,
  whose names \<^verbatim>\<open>str.lower()\<close> turns into \<open>bob\<close> and \<open>alice\<close>, the collector returns
  \<open>{"a@x.com": "alice"}\<close>.
\<close>

theorem later_name_wins:
  "(totalCount (get_commits repo since) = Inr n \<and>
    elements (get_commits repo since) = map Inr cs \<and> e \<in> email ` set cs \<longrightarrow>
      (\<exists>authors. snd (find_recent_contributors lower repo since lg) = Inr authors \<and>
         map_of authors e = Some (lower (name (last (filter (\<lambda>c. email c = e) cs)))))) \<and>
   (lower ''Bob'' = ''bob'' \<and> lower ''Alice'' = ''alice'' \<longrightarrow>
      snd (find_recent_contributors lower
             (repo_of ''acme/r'' (listing [\<lparr>name = ''Bob'', email = ''a@x.com''\<rparr>,
                                           \<lparr>name = ''Alice'', email = ''a@x.com''\<rparr>])) since lg) =
        Inr [(''a@x.com'', ''alice'')])"
proof (intro conjI impI)
  assume a: "totalCount (get_commits repo since) = Inr n \<and>
    elements (get_commits repo since) = map Inr cs \<and> e \<in> email ` set cs"
  let ?F = "\<lambda>a c. if (email c, lower (name c)) \<in> set a then a
                 else dict_setitem a (email c) (lower (name c))"
  have r: "snd (find_recent_contributors lower repo since lg) = Inr (foldl ?F [] cs)"
    using a by (intro find_recent_contributors_all_read) simp_all
  have "foldl ?F [] cs =
      foldl (\<lambda>mapping c. dict_setitem mapping (email c) (lower (name c))) [] cs"
    by (rule checked_fold_eq_naive) simp
  moreover have "map_of (foldl (\<lambda>mapping c. dict_setitem mapping (email c) (lower (name c))) [] cs) e =
      Some (lower (name (last (filter (\<lambda>c. email c = e) cs))))"
    using a by (intro map_of_naive_last) simp
  ultimately show "\<exists>authors. snd (find_recent_contributors lower repo since lg) = Inr authors \<and>
         map_of authors e = Some (lower (name (last (filter (\<lambda>c. email c = e) cs))))"
    using r by simp
next
  assume l: "lower ''Bob'' = ''bob'' \<and> lower ''Alice'' = ''alice''"
  let ?cs = "[\<lparr>name = ''Bob'', email = ''a@x.com''\<rparr>, \<lparr>name = ''Alice'', email = ''a@x.com''\<rparr>]"
  have "snd (find_recent_contributors lower (repo_of ''acme/r'' (listing ?cs)) since lg) =
     Inr (foldl (\<lambda>a c. if (email c, lower (name c)) \<in> set a then a
                 else dict_setitem a (email c) (lower (name c))) [] ?cs)"
    by (rule find_recent_contributors_all_read) (rule listing_sel)+
  then show "snd (find_recent_contributors lower (repo_of ''acme/r'' (listing ?cs)) since lg) =
     Inr [(''a@x.com'', ''alice'')]"
    using l by simp
qed

theorem later_name_wins_witness:
  "totalCount (get_commits (repo_of ''acme/r'' (listing bob_then_alice)) noon) = Inr 2 \<and>
   elements (get_commits (repo_of ''acme/r'' (listing bob_then_alice)) noon) =
     map Inr bob_then_alice \<and>
   ''a@x.com'' \<in> email ` set bob_then_alice \<and>
   ascii_lower ''Bob'' = ''bob'' \<and> ascii_lower ''Alice'' = ''alice'' \<and>
   (\<exists>authors. snd (find_recent_contributors ascii_lower
                  (repo_of ''acme/r'' (listing bob_then_alice)) noon fresh_logger) = Inr authors \<and>
      map_of authors ''a@x.com'' = Some ''alice'') \<and>
   snd (find_recent_contributors ascii_lower
          (repo_of ''acme/r'' (listing [\<lparr>name = ''Bob'', email = ''a@x.com''\<rparr>,
                                        \<lparr>name = ''Alice'', email = ''a@x.com''\<rparr>])) noon
          fresh_logger) = Inr [(''a@x.com'', ''alice'')]"
proof -
  have h1: "totalCount (get_commits (repo_of ''acme/r'' (listing bob_then_alice)) noon) = Inr 2"
    by (simp add: listing_sel bob_then_alice_def)
  have h2: "elements (get_commits (repo_of ''acme/r'' (listing bob_then_alice)) noon) =
      map Inr bob_then_alice"
    by (simp add: listing_sel)
  have h3: "''a@x.com'' \<in> email ` set bob_then_alice"
    by (simp add: bob_then_alice_def)
  have h4: "ascii_lower ''Bob'' = ''bob''" and h5: "ascii_lower ''Alice'' = ''alice''"
    by (simp_all add: ascii_lower_def ascii_lower_char_def)
  have ev: "ascii_lower (name (last (filter (\<lambda>c. email c = ''a@x.com'') bob_then_alice))) =
      ''alice''"
    by (simp add: bob_then_alice_def ascii_lower_def ascii_lower_char_def)
  from later_name_wins [of "repo_of ''acme/r'' (listing bob_then_alice)" noon 2 bob_then_alice
      "''a@x.com''" ascii_lower fresh_logger] h1 h2 h3 h4 h5
  show ?thesis by (simp add: ev)
qed

text \<open>
  C4, as the code has it. The \<^verbatim>\<open>except\<close> clause names \<open>GithubException\<close> only: when
  reading \<open>totalCount\<close> raises another class, a connection error for one, the collector
  raises it to its caller.
\<close>

theorem probe_error_counterexample:
  "totalCount (get_commits (repo_of ''acme/offline'' offline_listing) noon) =
     Inl (OtherException ''ConnectionError'') \<and>
   snd (find_recent_contributors ascii_lower (repo_of ''acme/offline'' offline_listing) noon
          fresh_logger) = Inl (OtherException ''ConnectionError'')"
  by (simp add: find_recent_contributors_def Let_def repo_of_def offline_listing_def)

text \<open>
  C4, amended. When reading \<open>totalCount\<close> raises a \<open>GithubException\<close> (the repository is
  empty or cannot be read), the collector logs the warning and returns the empty mapping:
  nothing is raised to the caller. When it raises an exception of any other class, the
  collector does not catch it: it leaves the collector, after the first log line only.
\<close>

theorem probe_github_exception_gives_empty_mapping:
  "(totalCount (get_commits repo since) = Inl (GithubException msg) \<longrightarrow>
      find_recent_contributors lower repo since lg =
        (emit WARNING Skipping_empty_repository
           (emit INFO (Analyzing_commits (full_name repo)) lg), Inr [])) \<and>
   (totalCount (get_commits repo since) = Inl e \<and> \<not> is_GithubException e \<longrightarrow>
      find_recent_contributors lower repo since lg =
        (emit INFO (Analyzing_commits (full_name repo)) lg, Inl e))"
  by (simp add: find_recent_contributors_def Let_def)

theorem probe_github_exception_gives_empty_mapping_witness:
  "totalCount (get_commits (repo_of ''acme/empty'' empty_listing) noon) =
     Inl (GithubException ''Git Repository is empty.'') \<and>
   find_recent_contributors ascii_lower (repo_of ''acme/empty'' empty_listing) noon fresh_logger =
     (\<lparr>loglevel = DEBUG,
       handled = [(INFO, Analyzing_commits ''acme/empty''), (WARNING, Skipping_empty_repository)]\<rparr>,
      Inr []) \<and>
   totalCount (get_commits (repo_of ''acme/offline'' offline_listing) noon) =
     Inl (OtherException ''ConnectionError'') \<and>
   \<not> is_GithubException (OtherException ''ConnectionError'') \<and>
   find_recent_contributors ascii_lower (repo_of ''acme/offline'' offline_listing) noon
     fresh_logger =
     (\<lparr>loglevel = DEBUG, handled = [(INFO, Analyzing_commits ''acme/offline'')]\<rparr>,
      Inl (OtherException ''ConnectionError''))"
proof -
  have h: "totalCount (get_commits (repo_of ''acme/empty'' empty_listing) noon) =
     Inl (GithubException ''Git Repository is empty.'')"
    by (simp add: repo_of_def empty_listing_def)
  have o: "totalCount (get_commits (repo_of ''acme/offline'' offline_listing) noon) =
     Inl (OtherException ''ConnectionError'')"
    by (simp add: repo_of_def offline_listing_def)
  from probe_github_exception_gives_empty_mapping
         [of "repo_of ''acme/empty'' empty_listing" noon "''Git Repository is empty.''"
             ascii_lower fresh_logger]
       probe_github_exception_gives_empty_mapping
         [of "repo_of ''acme/offline'' offline_listing" noon _ ascii_lower fresh_logger
             "OtherException ''ConnectionError''"]
       h o
  show ?thesis by (simp add: emit_def fresh_logger_def repo_of_def)
qed

subsection \<open>The time window\<close>

text \<open>
  C6, as the code has it. At \<open>days = 0\<close> the result is the clock reading itself, not an
  earlier instant, and a window that reaches before \<open>datetime.min\<close> raises
  \<open>OverflowError\<close>.
\<close>

theorem since_datetime_not_strictly_earlier_counterexample:
  "since_datetime noon 0 = Inr noon \<and> \<not> noon < noon \<and>
   since_datetime noon 1000000 = Inl OverflowError"
  by (simp add: since_datetime_def timedelta_days_def datetime_sub_def isoformat_roundtrip_def
      us_per_day_def datetime_max_def noon_def)

text \<open>
  C6, amended. For a clock reading that is a valid datetime and \<open>days \<ge> 0\<close>: when the
  window does not reach before \<open>datetime.min\<close>, \<open>since_datetime\<close> returns the clock
  reading minus exactly \<open>days\<close> times 24 hours, strictly earlier than the reading when
  \<open>days \<ge> 1\<close> and equal to it when \<open>days = 0\<close>; otherwise it raises \<open>OverflowError\<close>.
\<close>

theorem since_datetime_window:
  assumes "0 \<le> today" and "today \<le> datetime_max" and "0 \<le> days"
  shows "(days * us_per_day \<le> today \<longrightarrow>
            since_datetime today days = Inr (today - days * us_per_day) \<and>
            (0 < days \<longrightarrow> today - days * us_per_day < today) \<and>
            (days = 0 \<longrightarrow> today - days * us_per_day = today)) \<and>
         (today < days * us_per_day \<longrightarrow> since_datetime today days = Inl OverflowError)"
proof (intro conjI impI)
  assume le: "days * us_per_day \<le> today"
  with assms have "days \<le> 999999999"
    by (simp add: us_per_day_def datetime_max_def)
  moreover from assms have "0 \<le> days * us_per_day"
    by (simp add: us_per_day_def)
  ultimately show "since_datetime today days = Inr (today - days * us_per_day)"
    using assms le
    by (simp add: since_datetime_def timedelta_days_def datetime_sub_def
        isoformat_roundtrip_def Let_def)
next
  assume "0 < days"
  then show "today - days * us_per_day < today"
    by (simp add: us_per_day_def)
next
  assume "days = 0"
  then show "today - days * us_per_day = today" by simp
next
  assume lt: "today < days * us_per_day"
  with assms show "since_datetime today days = Inl OverflowError"
    by (simp add: since_datetime_def timedelta_days_def datetime_sub_def Let_def)
qed

theorem since_datetime_window_witness:
  "0 \<le> noon \<and> noon \<le> datetime_max \<and> (0::int) \<le> 90 \<and> 90 * us_per_day \<le> noon \<and> (0::int) < 90 \<and>
   since_datetime noon 90 = Inr 63921614400000000 \<and> (63921614400000000::int) < noon"
proof -
  have h1: "0 \<le> noon" and h2: "noon \<le> datetime_max" and h3: "(0::int) \<le> 90"
    by (simp_all add: noon_def datetime_max_def)
  from since_datetime_window [OF h1 h2 h3] h1 h2
  show ?thesis by (simp add: noon_def us_per_day_def)
qed

subsection \<open>The orchestrator\<close>

text \<open>
  C7, as the code has it. With no repository list the exit is \<open>sys.exit()\<close> with no
  argument: the exit status is 0.
\<close>

theorem no_repositories_exits_with_status_zero_counterexample:
  "\<not> exit_status (outcome (main ascii_lower acme noon ''acme'' None False)) \<noteq> 0"
  by (simp add: main_def since_datetime_def timedelta_days_def datetime_sub_def
      isoformat_roundtrip_def us_per_day_def datetime_max_def noon_def DAYS_AGO_def Let_def)

text \<open>
  C7, amended. With no repository list, and a clock at least 90 days after \<open>datetime.min\<close>,
  the program logs the error (at either log level), prints nothing, looks no repository
  up, and ends at once through \<open>sys.exit()\<close> with exit status 0.
\<close>

theorem no_repositories_logs_error_and_exits:
  assumes "90 * us_per_day \<le> today" and "today \<le> datetime_max"
  shows "main lower github today org None debug =
           \<lparr>log = [(ERROR, No_repositories_provided)], stdout = None,
            outcome = SystemExit None\<rparr> \<and>
         exit_status (outcome (main lower github today org None debug)) = 0"
proof -
  from assms have "since_datetime today DAYS_AGO = Inr (today - 90 * us_per_day)"
    by (simp add: since_datetime_def timedelta_days_def datetime_sub_def
        isoformat_roundtrip_def DAYS_AGO_def Let_def us_per_day_def)
  then show ?thesis
    by (simp add: main_def Let_def emit_def)
qed

theorem no_repositories_logs_error_and_exits_witness:
  "90 * us_per_day \<le> noon \<and> noon \<le> datetime_max \<and>
   main ascii_lower acme noon ''acme'' None True =
     \<lparr>log = [(ERROR, No_repositories_provided)], stdout = None, outcome = SystemExit None\<rparr> \<and>
   exit_status (outcome (main ascii_lower acme noon ''acme'' None True)) = 0"
proof -
  have h1: "90 * us_per_day \<le> noon" and h2: "noon \<le> datetime_max"
    by (simp_all add: noon_def us_per_day_def datetime_max_def)
  from no_repositories_logs_error_and_exits [OF h1 h2, of ascii_lower acme "''acme''" True] h1 h2
  show ?thesis by simp
qed

text \<open>
  C5. When \<open>main\<close> prints a report: the keys of \<open>repositories\<close> are the processed names,
  each with the size of its own mapping, the mapping of its last round for a name that is
  processed more than once; when a name gets the same mapping in all its rounds, the items
  are exactly the processed names with the sizes of their mappings. \<open>contributors\<close>, read
  as a finite map, is the merge of the per-repository mappings in processing order, a
  later repository overwriting an earlier one on the same email;
  \<open>num_unique_contributors\<close> is the size of that merged mapping; the keys of
  \<open>contributors\<close> are in strictly ascending order. For the repositories \<open>r1\<close> with
  \<open>{"a@x.com": "bob"}\<close> and \<open>r2\<close> with \<open>{"a@x.com": "bob", "c@y.com": "carol"}\<close> the report
  has the counts \<open>{"r1": 1, "r2": 2}\<close>, both contributors and the total 2.
\<close>

theorem aggregate_report:
  assumes "since_datetime today DAYS_AGO = Inr past_date"
    and "stdout (main lower github today org (Some names) debug) = Some r"
  shows "distinct (map fst (repositories r)) \<and>
         map_of (repositories r) =
           map_of (rev (map (\<lambda>(repo, m). (repo, length m))
             (mappings lower past_date (rounds github org 0 (split CHR '','' names))))) \<and>
         ((\<forall>p\<in>set (mappings lower past_date (rounds github org 0 (split CHR '','' names))).
           \<forall>q\<in>set (mappings lower past_date (rounds github org 0 (split CHR '','' names))).
              fst p = fst q \<longrightarrow> snd p = snd q) \<longrightarrow>
          set (repositories r) =
            (\<lambda>(repo, m). (repo, length m)) `
              set (mappings lower past_date (rounds github org 0 (split CHR '','' names)))) \<and>
         map_of (contributors r) =
           foldl (\<lambda>acc m. acc ++ map_of m) Map.empty
             (map snd (mappings lower past_date (rounds github org 0 (split CHR '','' names)))) \<and>
         num_unique_contributors r = card (dom (map_of (contributors r))) \<and>
         num_unique_contributors r = length (contributors r) \<and>
         sorted_wrt (<) (map fst (contributors r)) \<and>
         (lower ''Bob'' = ''bob'' \<and> lower ''Carol'' = ''carol'' \<longrightarrow>
            stdout (main lower acme noon ''acme'' (Some ''r1,r2'') debug) =
              Some \<lparr>repositories = [(''r1'', 1), (''r2'', 2)],
                    contributors = [(''a@x.com'', ''bob''), (''c@y.com'', ''carol'')],
                    num_unique_contributors = 2\<rparr>)"
proof -
  let ?ms = "mappings lower past_date (rounds github org 0 (split CHR '','' names))"
  let ?g = "\<lambda>(repo, m). (repo, length m)"
  from assms obtain ac where
    rc: "repositories r = dict_update [] (map ?g ?ms)" and
    ac: "ac = foldl dict_update [] (map snd ?ms)" and
    c: "contributors r = sort ac" and
    n: "num_unique_contributors r = length ac" and
    d: "distinct (map fst ac)"
    by (rule main_prints)
  have 1: "distinct (map fst (repositories r))"
    unfolding rc by (rule distinct_dict_update) simp
  have 2: "map_of (repositories r) = map_of (rev (map ?g ?ms))"
    unfolding rc by (simp add: map_of_dict_update_last)
  have 3: "set (repositories r) = ?g ` set ?ms"
    if func: "\<forall>p\<in>set ?ms. \<forall>q\<in>set ?ms. fst p = fst q \<longrightarrow> snd p = snd q"
  proof -
    have "set (dict_update [] (map ?g ?ms)) = set [] \<union> set (map ?g ?ms)"
    proof (rule set_dict_update_functional)
      show "distinct (map fst ([] :: (string \<times> nat) list))" by simp
      fix k v v'
      assume "(k, v) \<in> set [] \<union> set (map ?g ?ms)" and "(k, v') \<in> set [] \<union> set (map ?g ?ms)"
      then obtain m m' where m: "(k, m) \<in> set ?ms" "v = length m"
        and m': "(k, m') \<in> set ?ms" "v' = length m'"
        by auto
      from func m(1) m'(1) have "m = m'" by fastforce
      with m m' show "v = v'" by simp
    qed
    then show ?thesis by (simp add: rc)
  qed
  have "map_of ac = foldl (\<lambda>acc m. acc ++ map_of m) (map_of []) (map snd ?ms)"
    unfolding ac by (rule map_of_foldl_dict_update) (auto intro: mappings_distinct)
  with d have 4: "map_of (contributors r) =
      foldl (\<lambda>acc m. acc ++ map_of m) Map.empty (map snd ?ms)"
    by (simp add: c map_of_sort)
  have "card (set (map fst ac)) = length (map fst ac)"
    using d by (rule distinct_card)
  then have "length ac = card (set (map fst ac))" by simp
  also have "\<dots> = card (dom (map_of ac))" by (simp add: dom_map_of_conv_image_fst)
  finally have 5: "num_unique_contributors r = card (dom (map_of (contributors r)))"
    using d by (simp add: n c map_of_sort)
  have 6: "num_unique_contributors r = length (contributors r)" by (simp add: n c)
  have "sorted (map fst (sort ac))" by (rule sorted_keys_of_sorted_items) simp
  moreover have "distinct (map fst (sort ac))" using d by (rule distinct_keys_sort)
  ultimately have 7: "sorted_wrt (<) (map fst (contributors r))"
    by (simp add: c strict_sorted_iff)
  have 8: "stdout (main lower acme noon ''acme'' (Some ''r1,r2'') debug) =
              Some \<lparr>repositories = [(''r1'', 1), (''r2'', 2)],
                    contributors = [(''a@x.com'', ''bob''), (''c@y.com'', ''carol'')],
                    num_unique_contributors = 2\<rparr>"
    if l: "lower ''Bob'' = ''bob'' \<and> lower ''Carol'' = ''carol''"
  proof -
    have rs: "rounds acme ''acme'' 0 (split CHR '','' ''r1,r2'') =
        [(''r1'', Inr (repo_of ''acme/r1'' (listing [\<lparr>name = ''Bob'', email = ''a@x.com''\<rparr>]))),
         (''r2'', Inr (repo_of ''acme/r2'' (listing [\<lparr>name = ''Bob'', email = ''a@x.com''\<rparr>,
                                                     \<lparr>name = ''Carol'', email = ''c@y.com''\<rparr>])))]"
      by (simp add: acme_def)
    have ag: "aggregate lower 63921614400000000 (rounds acme ''acme'' 0 (split CHR '','' ''r1,r2''))
        ([], []) =
        Inr ([(''r1'', 1), (''r2'', 2)], [(''a@x.com'', ''bob''), (''c@y.com'', ''carol'')])"
      unfolding rs using l by (simp add: collected_listing)
    have so: "sort [(''a@x.com'', ''bob''), (''c@y.com'', ''carol'')] =
        [(''a@x.com'', ''bob''), (''c@y.com'', ''carol'')]"
      by simp
    show ?thesis
      unfolding main_stdout [OF noon_window] ag
      by (simp add: so dict_of_def)
  qed
  from 1 2 3 4 5 6 7 8 show ?thesis by blast
qed

theorem aggregate_report_witness:
  "since_datetime noon DAYS_AGO = Inr 63921614400000000 \<and>
   stdout (main ascii_lower acme noon ''acme'' (Some ''r2,nowhere,r1,empty'') True) =
     Some \<lparr>repositories = [(''r2'', 2), (''r1'', 1), (''empty'', 0)],
           contributors = [(''a@x.com'', ''bob''), (''c@y.com'', ''carol'')],
           num_unique_contributors = 2\<rparr> \<and>
   mappings ascii_lower 63921614400000000
       (rounds acme ''acme'' 0 (split CHR '','' ''r2,nowhere,r1,empty'')) =
     [(''r2'', [(''a@x.com'', ''bob''), (''c@y.com'', ''carol'')]),
      (''r1'', [(''a@x.com'', ''bob'')]), (''empty'', [])] \<and>
   set [(''r2'', 2), (''r1'', 1), (''empty'', 0::nat)] =
     (\<lambda>(repo, m). (repo, length m)) `
        set [(''r2'', [(''a@x.com'', ''bob''), (''c@y.com'', ''carol'')]),
             (''r1'', [(''a@x.com'', ''bob'')]), (''empty'', [])] \<and>
   sorted_wrt (<) [''a@x.com'', ''c@y.com''] \<and>
   ascii_lower ''Bob'' = ''bob'' \<and> ascii_lower ''Carol'' = ''carol'' \<and>
   stdout (main ascii_lower acme noon ''acme'' (Some ''r1,r2'') True) =
     Some \<lparr>repositories = [(''r1'', 1), (''r2'', 2)],
           contributors = [(''a@x.com'', ''bob''), (''c@y.com'', ''carol'')],
           num_unique_contributors = 2\<rparr>"
proof -
  have h1: "since_datetime noon DAYS_AGO = Inr 63921614400000000"
    by code_simp
  have h2: "stdout (main ascii_lower acme noon ''acme'' (Some ''r2,nowhere,r1,empty'') True) =
     Some \<lparr>repositories = [(''r2'', 2), (''r1'', 1), (''empty'', 0)],
           contributors = [(''a@x.com'', ''bob''), (''c@y.com'', ''carol'')],
           num_unique_contributors = 2\<rparr>"
    by code_simp
  have ms: "mappings ascii_lower 63921614400000000
       (rounds acme ''acme'' 0 (split CHR '','' ''r2,nowhere,r1,empty'')) =
     [(''r2'', [(''a@x.com'', ''bob''), (''c@y.com'', ''carol'')]),
      (''r1'', [(''a@x.com'', ''bob'')]), (''empty'', [])]"
    by code_simp
  have l: "ascii_lower ''Bob'' = ''bob''" "ascii_lower ''Carol'' = ''carol''"
    by (simp_all add: ascii_lower_def ascii_lower_char_def)
  have func: "\<forall>p\<in>set (mappings ascii_lower 63921614400000000
       (rounds acme ''acme'' 0 (split CHR '','' ''r2,nowhere,r1,empty''))).
     \<forall>q\<in>set (mappings ascii_lower 63921614400000000
       (rounds acme ''acme'' 0 (split CHR '','' ''r2,nowhere,r1,empty''))).
       fst p = fst q \<longrightarrow> snd p = snd q"
    unfolding ms by simp
  note t = aggregate_report [OF h1 h2]
  from t func
  have "set (repositories \<lparr>repositories = [(''r2'', 2), (''r1'', 1), (''empty'', 0)],
           contributors = [(''a@x.com'', ''bob''), (''c@y.com'', ''carol'')],
           num_unique_contributors = 2\<rparr>) =
         (\<lambda>(repo, m). (repo, length m)) `
             set (mappings ascii_lower 63921614400000000
                    (rounds acme ''acme'' 0 (split CHR '','' ''r2,nowhere,r1,empty'')))"
    by blast
  then have a: "set [(''r2'', 2), (''r1'', 1), (''empty'', 0::nat)] =
     (\<lambda>(repo, m). (repo, length m)) `
        set [(''r2'', [(''a@x.com'', ''bob''), (''c@y.com'', ''carol'')]),
             (''r1'', [(''a@x.com'', ''bob'')]), (''empty'', [])]"
    by (simp only: ms report.simps)
  from t
  have "sorted_wrt (<) (map fst (contributors \<lparr>repositories = [(''r2'', 2), (''r1'', 1), (''empty'', 0)],
           contributors = [(''a@x.com'', ''bob''), (''c@y.com'', ''carol'')],
           num_unique_contributors = 2\<rparr>))"
    by blast
  then have b: "sorted_wrt (<) [''a@x.com'', ''c@y.com'']"
    by (simp only: report.simps list.map fst_conv)
  from t l
  have e: "stdout (main ascii_lower acme noon ''acme'' (Some ''r1,r2'') True) =
     Some \<lparr>repositories = [(''r1'', 1), (''r2'', 2)],
           contributors = [(''a@x.com'', ''bob''), (''c@y.com'', ''carol'')],
           num_unique_contributors = 2\<rparr>"
    by blast
  from h1 h2 ms a b l e show ?thesis by (intro conjI)
qed

text \<open>
  C8, as the code has it. \<open>r1\<close> is looked up and collected without error, then the
  commits of \<open>broken\<close> raise: the run is aborted and nothing is printed.
\<close>

theorem report_printed_counterexample:
  "acme 0 ''acme/r1'' = Inr (repo_of ''acme/r1'' (listing [\<lparr>name = ''Bob'', email = ''a@x.com''\<rparr>])) \<and>
   snd (find_recent_contributors ascii_lower
          (repo_of ''acme/r1'' (listing [\<lparr>name = ''Bob'', email = ''a@x.com''\<rparr>]))
          63921614400000000 fresh_logger) = Inr [(''a@x.com'', ''bob'')] \<and>
   stdout (main ascii_lower acme noon ''acme'' (Some ''r1,broken'') False) = None \<and>
   outcome (main ascii_lower acme noon ''acme'' (Some ''r1,broken'') False) =
     Raised (OtherException ''AttributeError'')"
proof (intro conjI)
  show "acme 0 ''acme/r1'' =
      Inr (repo_of ''acme/r1'' (listing [\<lparr>name = ''Bob'', email = ''a@x.com''\<rparr>]))"
    by (simp add: acme_def)
  show "snd (find_recent_contributors ascii_lower
          (repo_of ''acme/r1'' (listing [\<lparr>name = ''Bob'', email = ''a@x.com''\<rparr>]))
          63921614400000000 fresh_logger) = Inr [(''a@x.com'', ''bob'')]"
    by code_simp
  show "stdout (main ascii_lower acme noon ''acme'' (Some ''r1,broken'') False) = None"
    by code_simp
  show "outcome (main ascii_lower acme noon ''acme'' (Some ''r1,broken'') False) =
     Raised (OtherException ''AttributeError'')"
    by code_simp
qed

text \<open>
  C8, amended. The report is printed if and only if \<open>main\<close> returns (no exception left
  it and it did not exit early) and at least one repository of the list was looked up
  without failure, whatever the number of its contributors. With no repository looked up,
  or after an abort, nothing is printed.
\<close>

theorem report_printed_iff:
  "stdout (main lower github today org repos debug) \<noteq> None \<longleftrightarrow>
     outcome (main lower github today org repos debug) = Returned \<and>
     (\<exists>names. repos = Some names \<and>
        (\<exists>ra\<in>set (rounds github org 0 (split CHR '','' names)). \<exists>h. snd ra = Inr h))"
proof (cases "since_datetime today DAYS_AGO")
  case (Inl e)
  then show ?thesis by (simp add: main_no_clock)
next
  case (Inr past_date)
  show ?thesis
  proof (cases repos)
    case None
    with Inr show ?thesis by (simp add: main_None)
  next
    case (Some names)
    let ?rs = "rounds github org 0 (split CHR '','' names)"
    show ?thesis
    proof (cases "aggregate lower past_date ?rs ([], [])")
      case (Inl e)
      with Some main_stdout [OF Inr, of lower github org names debug]
        main_outcome [OF Inr, of lower github org names debug]
      show ?thesis by simp
    next
      case st: (Inr st)
      from aggregate_returns [OF st]
      have rc: "fst st = dict_update []
          (map (\<lambda>(repo, m). (repo, length m)) (mappings lower past_date ?rs))"
        and ok: "\<forall>ra\<in>set ?rs. \<exists>r. collected lower past_date (snd ra) = Inr r"
        by simp_all
      have "fst st \<noteq> [] \<longleftrightarrow> mappings lower past_date ?rs \<noteq> []"
        by (simp add: rc dict_update_eq_Nil)
      also have "\<dots> \<longleftrightarrow> (\<exists>repo m. (repo, m) \<in> set (mappings lower past_date ?rs))"
        by (cases "mappings lower past_date ?rs") auto
      also have "\<dots> \<longleftrightarrow> (\<exists>ra\<in>set ?rs. \<exists>h. snd ra = Inr h)"
      proof
        assume "\<exists>repo m. (repo, m) \<in> set (mappings lower past_date ?rs)"
        then obtain repo m answer where "(repo, answer) \<in> set ?rs"
          and "collected lower past_date answer = Inr (Some m)"
          by (auto simp: in_mappings)
        then show "\<exists>ra\<in>set ?rs. \<exists>h. snd ra = Inr h"
          by (force dest: collected_Some_lookup)
      next
        assume "\<exists>ra\<in>set ?rs. \<exists>h. snd ra = Inr h"
        then obtain ra h where ra: "ra \<in> set ?rs" and h: "snd ra = Inr h"
          by blast
        from ok ra obtain r where r: "collected lower past_date (snd ra) = Inr r" by blast
        with h collected_lookup [of lower past_date h r] obtain m where "r = Some m" by auto
        with r ra have "(fst ra, m) \<in> set (mappings lower past_date ?rs)"
          by (auto simp: in_mappings intro: exI [of _ "snd ra"])
        then show "\<exists>repo m. (repo, m) \<in> set (mappings lower past_date ?rs)" by blast
      qed
      finally have "fst st \<noteq> [] \<longleftrightarrow> (\<exists>ra\<in>set ?rs. \<exists>h. snd ra = Inr h)" .
      with st Some main_stdout [OF Inr, of lower github org names debug]
        main_outcome [OF Inr, of lower github org names debug]
      show ?thesis by simp
    qed
  qed
qed

theorem report_printed_iff_witness:
  "stdout (main ascii_lower acme noon ''acme'' (Some ''nowhere,empty'') False) \<noteq> None \<and>
   outcome (main ascii_lower acme noon ''acme'' (Some ''nowhere,empty'') False) = Returned \<and>
   (\<exists>ra\<in>set (rounds acme ''acme'' 0 (split CHR '','' ''nowhere,empty'')). \<exists>h. snd ra = Inr h)"
proof -
  have ev: "stdout (main ascii_lower acme noon ''acme'' (Some ''nowhere,empty'') False) \<noteq> None"
    by code_simp
  with report_printed_iff [of ascii_lower acme noon "''acme''" "Some ''nowhere,empty''" False]
  show ?thesis by simp
qed

text \<open>
  C9. An exception raised while a commit is fetched or its author is read, after the count
  was read, is not caught by the collector: the collector raises it, and \<open>main\<close>, which
  has reached that repository, ends with the same exception and prints nothing.
\<close>

theorem commit_error_propagates:
  assumes "totalCount (get_commits h past_date) = Inr n"
    and "elements (get_commits h past_date) = map Inr cs @ Inl e # rest"
    and "since_datetime today DAYS_AGO = Inr past_date"
    and "split CHR '','' names = pre @ repo # post"
    and "github (length pre) (org @ ''/'' @ repo) = Inr h"
    and "\<forall>ra\<in>set (rounds github org 0 pre). \<exists>r. collected lower past_date (snd ra) = Inr r"
  shows "snd (find_recent_contributors lower h past_date lg) = Inl e \<and>
         outcome (main lower github today org (Some names) debug) = Raised e \<and>
         stdout (main lower github today org (Some names) debug) = None"
proof -
  have r: "snd (find_recent_contributors lower h past_date lg) = Inl e" for lg
    using assms(1,2) by (simp add: find_recent_contributors_def Let_def for_commits_error)
  then have c: "collected lower past_date (snd (repo, Inr h :: error + repository)) = Inl e"
    by (simp add: collected_def)
  have "rounds github org 0 (pre @ repo # post) =
      rounds github org 0 pre @ (repo, Inr h) # rounds github org (Suc (length pre)) post"
    using assms(5) by (simp add: rounds_append)
  moreover have "aggregate lower past_date
      (rounds github org 0 pre @ (repo, Inr h) # rounds github org (Suc (length pre)) post)
      ([], []) = Inl e"
    using assms(6) c by (rule aggregate_abort)
  ultimately have "aggregate lower past_date (rounds github org 0 (split CHR '','' names))
      ([], []) = Inl e"
    by (simp add: assms(4))
  with main_stdout [OF assms(3), of lower github org names debug]
    main_outcome [OF assms(3), of lower github org names debug] r [of lg]
  show ?thesis by simp
qed

theorem commit_error_propagates_witness:
  "totalCount (get_commits (repo_of ''acme/broken'' broken_listing) 63921614400000000) = Inr 2 \<and>
   elements (get_commits (repo_of ''acme/broken'' broken_listing) 63921614400000000) =
     map Inr [\<lparr>name = ''Bob'', email = ''a@x.com''\<rparr>] @ Inl (OtherException ''AttributeError'') # [] \<and>
   since_datetime noon DAYS_AGO = Inr 63921614400000000 \<and>
   split CHR '','' ''r1,broken,r2'' = [''r1''] @ ''broken'' # [''r2''] \<and>
   acme (length [''r1'']) (''acme'' @ ''/'' @ ''broken'') =
     Inr (repo_of ''acme/broken'' broken_listing) \<and>
   rounds acme ''acme'' 0 [''r1''] =
     [(''r1'', Inr (repo_of ''acme/r1'' (listing [\<lparr>name = ''Bob'', email = ''a@x.com''\<rparr>])))] \<and>
   collected ascii_lower 63921614400000000
     (Inr (repo_of ''acme/r1'' (listing [\<lparr>name = ''Bob'', email = ''a@x.com''\<rparr>]))) =
     Inr (Some [(''a@x.com'', ''bob'')]) \<and>
   snd (find_recent_contributors ascii_lower (repo_of ''acme/broken'' broken_listing)
          63921614400000000 fresh_logger) = Inl (OtherException ''AttributeError'') \<and>
   outcome (main ascii_lower acme noon ''acme'' (Some ''r1,broken,r2'') False) =
     Raised (OtherException ''AttributeError'') \<and>
   stdout (main ascii_lower acme noon ''acme'' (Some ''r1,broken,r2'') False) = None"
proof -
  have h1: "totalCount (get_commits (repo_of ''acme/broken'' broken_listing) 63921614400000000) = Inr 2"
    by (simp add: repo_of_def broken_listing_def)
  have h2: "elements (get_commits (repo_of ''acme/broken'' broken_listing) 63921614400000000) =
     map Inr [\<lparr>name = ''Bob'', email = ''a@x.com''\<rparr>] @ Inl (OtherException ''AttributeError'') # []"
    by (simp add: repo_of_def broken_listing_def)
  have h3: "since_datetime noon DAYS_AGO = Inr 63921614400000000"
    by code_simp
  have h4: "split CHR '','' ''r1,broken,r2'' = [''r1''] @ ''broken'' # [''r2'']"
    by simp
  have h5: "acme (length [''r1'']) (''acme'' @ ''/'' @ ''broken'') =
      Inr (repo_of ''acme/broken'' broken_listing)"
    by (simp add: acme_def)
  have rs: "rounds acme ''acme'' 0 [''r1''] =
     [(''r1'', Inr (repo_of ''acme/r1'' (listing [\<lparr>name = ''Bob'', email = ''a@x.com''\<rparr>])))]"
    by (simp add: acme_def)
  have c: "collected ascii_lower 63921614400000000
     (Inr (repo_of ''acme/r1'' (listing [\<lparr>name = ''Bob'', email = ''a@x.com''\<rparr>]))) =
     Inr (Some [(''a@x.com'', ''bob'')])"
    by (simp add: collected_listing ascii_lower_def ascii_lower_char_def)
  have h6: "\<forall>ra\<in>set (rounds acme ''acme'' 0 [''r1'']).
      \<exists>r. collected ascii_lower 63921614400000000 (snd ra) = Inr r"
    unfolding rs using c by simp
  from commit_error_propagates [OF h1 h2 h3 h4 h5 h6, of fresh_logger False] h1 h2 h3 h4 h5 rs c
  show ?thesis by (intro conjI) blast+
qed




end
